theory Spec2Isabelle
  imports Main
begin

section \<open>JavaScript values\<close>

text \<open>
  The values the two classes inspect.  Objects live in a heap and are named by their
  address, so that the same object can occur twice in an argument list and an array can
  contain itself; \<open>normaliseKeys\<close> keeps a \<open>WeakSet\<close> of the objects it has seen.
  Numbers are the integers that \<open>String\<close> writes in decimal digits (\<open>NaN\<close>, fractions
  and the exponent notation of large numbers are left out); a function is named by an
  identity and carries the text \<open>String\<close> renders it with.
\<close>

type_synonym addr = nat

datatype jsval =
    Undefined
  | Null
  | Bool bool
  | Num int
  | Str string
  | Fn nat string
  | Ref addr

text \<open>
  An object either has a \<open>Symbol.iterator\<close> member, and then \<open>Array.from\<close> lists its
  elements, or it has none (\<open>{foo: "bar"}\<close>).
\<close>

datatype obj = Iterable "jsval list" | Plain

type_synonym heap = "obj list"

datatype error = TypeError string

fun typeof :: "jsval \<Rightarrow> string" where
  "typeof Undefined = ''undefined''"
| "typeof Null = ''object''"
| "typeof (Bool b) = ''boolean''"
| "typeof (Num n) = ''number''"
| "typeof (Str s) = ''string''"
| "typeof (Fn f src) = ''function''"
| "typeof (Ref a) = ''object''"

text \<open>What \<open>!value\<close> negates.\<close>

fun truthy :: "jsval \<Rightarrow> bool" where
  "truthy Undefined = False"
| "truthy Null = False"
| "truthy (Bool b) = b"
| "truthy (Num n) = (n \<noteq> 0)"
| "truthy (Str s) = (s \<noteq> [])"
| "truthy (Fn f src) = True"
| "truthy (Ref a) = True"

fun digits :: "nat \<Rightarrow> string" where
  "digits n =
     (if n < 10 then [char_of (48 + n)]
      else digits (n div 10) @ [char_of (48 + n mod 10)])"

text \<open>
  \<open>String(value)\<close> for the values that are not objects; \<open>normaliseKeys\<close> applies it to no
  other.  The equation for numbers is JavaScript's for integers of magnitude below
  \<open>10\<^sup>2\<^sup>1\<close>; from there on JavaScript writes an exponent, which is not modelled.
\<close>

fun String :: "jsval \<Rightarrow> string" where
  "String Undefined = ''undefined''"
| "String Null = ''null''"
| "String (Bool b) = (if b then ''true'' else ''false'')"
| "String (Num n) = (if n < 0 then CHR ''-'' # digits (nat (- n)) else digits (nat n))"
| "String (Str s) = s"
| "String (Fn f src) = src"

section \<open>Strings: \<open>trim\<close> and \<open>split(/\<bslash>s+/)\<close>\<close>

text \<open>
  The white space of \<open>String.prototype.trim\<close> and of the class \<open>\<bslash>s\<close> among the
  code units below 256: tab, line feed, vertical tab, form feed, carriage return, space
  and no-break space.
\<close>

definition js_space :: "char \<Rightarrow> bool" where
  "js_space c \<longleftrightarrow> c \<in> set [CHR 0x09, CHR 0x0A, CHR 0x0B, CHR 0x0C, CHR 0x0D, CHR 0x20, CHR 0xA0]"

definition trim :: "string \<Rightarrow> string" where
  "trim s = rev (dropWhile js_space (rev (dropWhile js_space s)))"

text \<open>
  \<open>s.split(/\<bslash>s+/)\<close>: the pieces between the maximal runs of white space.  A string
  that starts or ends with white space gets an empty first or last piece, and the empty
  string splits into one empty piece.
\<close>

function split_ws :: "string \<Rightarrow> string list" where
  "split_ws s =
     (if dropWhile (\<lambda>c. \<not> js_space c) s = [] then [s]
      else takeWhile (\<lambda>c. \<not> js_space c) s
             # split_ws (dropWhile js_space (dropWhile (\<lambda>c. \<not> js_space c) s)))"
  by pat_completeness auto
termination
proof (relation "measure length")
  show "wf (measure length)" by simp
next
  fix s :: string
  assume ne: "dropWhile (\<lambda>c. \<not> js_space c) s \<noteq> []"
  then obtain c cs where r: "dropWhile (\<lambda>c. \<not> js_space c) s = c # cs"
    by (cases "dropWhile (\<lambda>c. \<not> js_space c) s") auto
  have "js_space c" using hd_dropWhile [OF ne] r by simp
  then have "length (dropWhile js_space (c # cs)) \<le> length cs"
    by (simp add: length_dropWhile_le)
  moreover have "length (c # cs) \<le> length s"
    using length_dropWhile_le [of "\<lambda>c. \<not> js_space c" s] r by simp
  ultimately show "(dropWhile js_space (dropWhile (\<lambda>c. \<not> js_space c) s), s) \<in> measure length"
    using r by simp
qed

declare split_ws.simps [simp del]

section \<open>\<open>ObservedKeyList.normaliseKeys\<close>\<close>

text \<open>
  \<open>iterate h a\<close> is what \<open>Symbol.iterator in input\<close> and \<open>Array.from(input)\<close> give for
  the object at address \<open>a\<close>: its elements, or nothing when it is not iterable.  An
  address outside the heap names no object and is read as not iterable.
\<close>

definition iterate :: "heap \<Rightarrow> addr \<Rightarrow> jsval list option" where
  "iterate h a =
     (if a < length h then (case h ! a of Iterable vs \<Rightarrow> Some vs | Plain \<Rightarrow> None) else None)"

text \<open>
  \<open>normaliseKeys\<close> is the method, \<open>keys_loop\<close> its \<open>for\<close> loop over the elements of
  \<open>input\<close>.  The set \<open>refs\<close> is the \<open>WeakSet\<close> shared by all nested calls, so both
  functions return it with the output.  A thrown \<open>TypeError\<close> is \<open>Inl\<close>.  The outer
  \<open>switch(typeof input)\<close> is the case distinction of \<open>normaliseKeys\<close> (\<open>typeof null\<close>
  is \<open>"object"\<close>, and \<open>Symbol.iterator in null\<close> throws); the inner
  \<open>switch(typeof value)\<close> has cases for strings and objects only.
\<close>

function normaliseKeys :: "heap \<Rightarrow> jsval \<Rightarrow> addr set \<Rightarrow> error + (string list \<times> addr set)"
  and keys_loop :: "heap \<Rightarrow> jsval list \<Rightarrow> addr set \<Rightarrow> error + (string list \<times> addr set)"
where
  "normaliseKeys h input refs =
     (case input of
        Str s \<Rightarrow> keys_loop h [input] refs
      | Ref a \<Rightarrow>
          (case iterate h a of
             None \<Rightarrow> Inl (TypeError ''Object is not iterable'')
           | Some vs \<Rightarrow> keys_loop h vs (insert a refs))
      | Null \<Rightarrow> Inl (TypeError ''Cannot use 'in' operator to search for 'Symbol(Symbol.iterator)' in null'')
      | _ \<Rightarrow> keys_loop h [Str (String input)] refs)"
| "keys_loop h [] refs = Inr ([], refs)"
| "keys_loop h (v # vs) refs =
     (if \<not> truthy v then keys_loop h vs refs
      else case v of
        Str s \<Rightarrow>
          (case keys_loop h vs refs of
             Inl e \<Rightarrow> Inl e
           | Inr (out, refs') \<Rightarrow> Inr (split_ws (trim s) @ out, refs'))
      | Ref a \<Rightarrow>
          if a \<in> refs then keys_loop h vs refs
          else (case normaliseKeys h v (insert a refs) of
                  Inl e \<Rightarrow> Inl e
                | Inr (sub, refs1) \<Rightarrow>
                    (case keys_loop h vs refs1 of
                       Inl e \<Rightarrow> Inl e
                     | Inr (out, refs2) \<Rightarrow> Inr (sub @ out, refs2)))
      | _ \<Rightarrow> keys_loop h vs refs)"
  by pat_completeness auto

text \<open>
  Termination: every nested call marks an object of the heap that was not marked before, and
  the marks are never removed.
\<close>

lemma refs_mono_dom:
  "normaliseKeys_keys_loop_dom (Inl (h, v, refs)) \<Longrightarrow>
     normaliseKeys h v refs = Inr (out, r) \<Longrightarrow> refs \<subseteq> r"
  "normaliseKeys_keys_loop_dom (Inr (h, vs, refs)) \<Longrightarrow>
     keys_loop h vs refs = Inr (out, r) \<Longrightarrow> refs \<subseteq> r"
proof (induction h v refs and h vs refs arbitrary: out r and out r
       rule: normaliseKeys_keys_loop.pinduct)
  case (1 h input refs)
  note eq = normaliseKeys.psimps [OF "1.hyps"]
  show ?case
  proof (cases input)
    case (Ref a)
    with "1.prems" eq obtain vs where it: "iterate h a = Some vs"
      and l: "keys_loop h vs (insert a refs) = Inr (out, r)"
      by (cases "iterate h a") simp_all
    from "1.IH"(6) [OF Ref it l] show ?thesis by blast
  next
    case Null
    with "1.prems" eq show ?thesis by simp
  next
    case Undefined
    with "1.prems" eq have "keys_loop h [Str (String input)] refs = Inr (out, r)" by simp
    from "1.IH"(1) [OF Undefined this] show ?thesis .
  next
    case (Bool b)
    with "1.prems" eq have "keys_loop h [Str (String input)] refs = Inr (out, r)" by simp
    from "1.IH"(2) [OF Bool this] show ?thesis .
  next
    case (Num n)
    with "1.prems" eq have "keys_loop h [Str (String input)] refs = Inr (out, r)" by simp
    from "1.IH"(3) [OF Num this] show ?thesis .
  next
    case (Str s)
    with "1.prems" eq have "keys_loop h [input] refs = Inr (out, r)" by simp
    from "1.IH"(4) [OF Str this] show ?thesis .
  next
    case (Fn f src)
    with "1.prems" eq have "keys_loop h [Str (String input)] refs = Inr (out, r)" by simp
    from "1.IH"(5) [OF Fn this] show ?thesis .
  qed
next
  case (2 h refs)
  then show ?case by (simp add: keys_loop.psimps)
next
  case (3 h v vs refs)
  note eq = keys_loop.psimps(2) [OF "3.hyps"]
  show ?case
  proof (cases "truthy v")
    case False
    with "3.prems" eq have "keys_loop h vs refs = Inr (out, r)" by simp
    from "3.IH"(1) [OF False this] show ?thesis .
  next
    case True
    then have tv: "\<not> \<not> truthy v" by simp
    show ?thesis
    proof (cases v)
      case (Str s)
      with "3.prems" eq True obtain out' where "keys_loop h vs refs = Inr (out', r)"
        by (cases "keys_loop h vs refs") (auto split: prod.splits)
      from "3.IH"(6) [OF tv Str this] show ?thesis .
    next
      case (Ref a)
      show ?thesis
      proof (cases "a \<in> refs")
        case True
        with "3.prems" eq tv Ref have "keys_loop h vs refs = Inr (out, r)" by simp
        from "3.IH"(8) [OF tv Ref True this] show ?thesis .
      next
        case False
        from "3.prems" eq tv Ref False obtain sub r1 where
          n: "normaliseKeys h v (insert a refs) = Inr (sub, r1)"
          by (cases "normaliseKeys h v (insert a refs)") auto
        with "3.prems" eq tv Ref False obtain out' where
          l: "keys_loop h vs r1 = Inr (out', r)"
          by (cases "keys_loop h vs r1") auto
        from "3.IH"(9) [OF tv Ref False n] have "insert a refs \<subseteq> r1" .
        moreover from "3.IH"(10) [OF tv Ref False n refl l] have "r1 \<subseteq> r" .
        ultimately show ?thesis by blast
      qed
    next
      case Undefined
      with True show ?thesis by simp
    next
      case Null
      with True show ?thesis by simp
    next
      case (Bool b)
      with "3.prems" eq True have "keys_loop h vs refs = Inr (out, r)" by simp
      from "3.IH"(4) [OF tv Bool this] show ?thesis .
    next
      case (Num n)
      with "3.prems" eq True have "keys_loop h vs refs = Inr (out, r)" by simp
      from "3.IH"(5) [OF tv Num this] show ?thesis .
    next
      case (Fn f src)
      with "3.prems" eq True have "keys_loop h vs refs = Inr (out, r)" by simp
      from "3.IH"(7) [OF tv Fn this] show ?thesis .
    qed
  qed
qed

definition unseen :: "heap \<Rightarrow> addr set \<Rightarrow> nat" where
  "unseen h refs = card ({..<length h} - refs)"

lemma unseen_mono: "refs \<subseteq> r \<Longrightarrow> unseen h r \<le> unseen h refs"
  unfolding unseen_def by (intro card_mono) auto

lemma unseen_insert:
  "a < length h \<Longrightarrow> unseen h (insert a refs) < unseen h (refs - {a})"
  unfolding unseen_def by (intro psubset_card_mono) auto

termination normaliseKeys
proof (relation "measures
    [\<lambda>x. case x of
        Inl (h, v, refs) \<Rightarrow> unseen h (refs - (case v of Ref a \<Rightarrow> {a} | _ \<Rightarrow> {}))
      | Inr (h, vs, refs) \<Rightarrow> unseen h refs,
     \<lambda>x. case x of
        Inl (h, v, refs) \<Rightarrow> (case v of Ref a \<Rightarrow> 0 | _ \<Rightarrow> 3)
      | Inr (h, vs, refs) \<Rightarrow> 1 + length vs]", goal_cases)
  case 1
  then show ?case by simp
next
  case (7 h input refs a vs)
  then have "a < length h" by (auto simp: iterate_def split: if_splits)
  from unseen_insert [OF this] 7 show ?case by simp
next
  case (17 h v vs refs a b sub r1)
  then have "insert a refs \<subseteq> r1" using refs_mono_dom(1) by metis
  then have "unseen h r1 \<le> unseen h refs" by (intro unseen_mono) auto
  then show ?case by auto
qed simp_all

section \<open>The collaborators of \<open>ObservedKeyList\<close>\<close>

text \<open>
  Modelled from the spec: the subscription store.  The class keeps the disposables that
  \<open>atom.config.observe\<close> returns in a \<open>MappedDisposable\<close> of the package
  \<open>mapped-disposable\<close>, which is not among the sources.  The spec calls it a mapping from
  key to an opaque cancellable handle, whose handles can be cancelled one key at a time or
  all together.  The model has what the class uses of it: \<open>add(key, disposable)\<close> files a
  disposable under a key, \<open>dispose(key)\<close> disposes and forgets the disposables of one key,
  \<open>dispose()\<close> disposes all of them and marks the store as disposed, and a disposed store
  ignores both.  A disposable is named by the number of the observer it cancels, and
  \<open>ident\<close> tells one store from another.
\<close>

record mapped_disposable =
  ident :: nat
  entries :: "(string \<times> nat) list"
  disposed :: bool

definition md_new :: "nat \<Rightarrow> mapped_disposable" where
  "md_new i = \<lparr>ident = i, entries = [], disposed = False\<rparr>"

definition md_add :: "string \<Rightarrow> nat \<Rightarrow> mapped_disposable \<Rightarrow> mapped_disposable" where
  "md_add k d m = (if disposed m then m else m\<lparr>entries := entries m @ [(k, d)]\<rparr>)"

text \<open>The disposables that \<open>dispose(key)\<close> and \<open>dispose()\<close> dispose.\<close>

definition md_of_key :: "string \<Rightarrow> mapped_disposable \<Rightarrow> nat list" where
  "md_of_key k m = (if disposed m then [] else map snd (filter (\<lambda>e. fst e = k) (entries m)))"

definition md_all :: "mapped_disposable \<Rightarrow> nat list" where
  "md_all m = (if disposed m then [] else map snd (entries m))"

definition md_dispose_key :: "string \<Rightarrow> mapped_disposable \<Rightarrow> mapped_disposable" where
  "md_dispose_key k m =
     (if disposed m then m else m\<lparr>entries := filter (\<lambda>e. fst e \<noteq> k) (entries m)\<rparr>)"

definition md_dispose :: "mapped_disposable \<Rightarrow> mapped_disposable" where
  "md_dispose m = (if disposed m then m else m\<lparr>entries := [], disposed := True\<rparr>)"

section \<open>\<open>ObservedKeyList\<close>\<close>

text \<open>
  One instance together with the part of its environment that it acts on.
  \<^item> \<open>keys\<close>: the elements of the \<open>Set\<close> the class extends, in insertion order;
  \<^item> \<open>callback\<close>, \<open>callbackQueued\<close>, \<open>disposables\<close>: the instance's properties
    (\<open>callbackQueued\<close> is undefined until the first notification, which \<open>if\<close> reads as
    false);
  \<^item> \<open>observers\<close>: the observers this instance has registered with \<open>atom.config\<close> and
    that are not disposed, each with its number and its key;
  \<^item> \<open>ticks\<close>: how many closures handed to \<open>process.nextTick\<close> have not run yet;
  \<^item> \<open>calls\<close>: the invocations of the callback so far, each with the function called
    and the list of its arguments;
  \<^item> \<open>next_handle\<close>, \<open>next_ident\<close>: the numbers of the next observer and the next store.
\<close>

record okl =
  keys :: "string list"
  callback :: jsval
  callbackQueued :: bool
  disposables :: mapped_disposable
  observers :: "(nat \<times> string) list"
  ticks :: nat
  calls :: "(jsval \<times> jsval list) list"
  next_handle :: nat
  next_ident :: nat

text \<open>What a call does besides changing the state: it returns, or it throws.\<close>

datatype outcome = Returned | Threw error

text \<open>
  The closure that \<open>add\<close> passes to \<open>atom.config.observe\<close>.  It is the same for every key:
  it reads and writes the instance only.
\<close>

definition handler :: "okl \<Rightarrow> okl" where
  "handler w =
     (if callbackQueued w \<or> \<not> truthy (callback w) then w
      else w\<lparr>callbackQueued := True, ticks := Suc (ticks w)\<rparr>)"

text \<open>
  The closure that the handler passes to \<open>process.nextTick\<close>: it clears the flag and calls
  \<open>this.callback()\<close>.  Calling a value that is not a function throws.
\<close>

definition deferred :: "okl \<Rightarrow> outcome \<times> okl" where
  "deferred w =
     (let w1 = w\<lparr>callbackQueued := False\<rparr>
      in if typeof (callback w1) = ''function''
         then (Returned, w1\<lparr>calls := calls w1 @ [(callback w1, [])]\<rparr>)
         else (Threw (TypeError ''this.callback is not a function''), w1))"

text \<open>
  Modelled from the spec: \<open>process.nextTick\<close> is the host's deferred scheduling, which runs
  a closure once, asynchronously, no sooner than the current synchronous execution
  completes.  \<open>tick\<close> is the next turn of the scheduler: it runs one queued closure, if there
  is one.
\<close>

definition tick :: "okl \<Rightarrow> outcome \<times> okl" where
  "tick w = (if ticks w = 0 then (Returned, w) else deferred (w\<lparr>ticks := ticks w - 1\<rparr>))"

text \<open>
  Modelled from the spec: \<open>atom.config.observe(key, handler)\<close> is the host's operation that
  registers the handler to be invoked on every mutation of the key's value.  It invokes the
  handler once on the initial observation, which counts as a normal notification, and
  returns the handle that cancels the observation.
\<close>

definition config_observe :: "string \<Rightarrow> okl \<Rightarrow> nat \<times> okl" where
  "config_observe k w =
     (let w1 = handler w
      in (next_handle w1,
          w1\<lparr>observers := observers w1 @ [(next_handle w1, k)],
              next_handle := Suc (next_handle w1)\<rparr>))"

text \<open>
  Modelled from the spec: a mutation of the value under key \<open>k\<close>.  The host invokes every
  handler that is registered for \<open>k\<close> and not cancelled.
\<close>

definition notify :: "string \<Rightarrow> okl \<Rightarrow> okl" where
  "notify k w = fold (\<lambda>_. handler) (filter (\<lambda>ob. snd ob = k) (observers w)) w"

text \<open>
  Modelled from the spec: cancelling handles stops future notifications for them, and
  cancelling twice is the same as once.
\<close>

definition cancel :: "nat list \<Rightarrow> okl \<Rightarrow> okl" where
  "cancel ds w = w\<lparr>observers := filter (\<lambda>ob. fst ob \<notin> set ds) (observers w)\<rparr>"

text \<open>The body of the loop of \<open>add\<close>, for one key.\<close>

definition add_key :: "string \<Rightarrow> okl \<Rightarrow> okl" where
  "add_key k w =
     (if k \<in> set (keys w) then w
      else let w1 = w\<lparr>keys := keys w @ [k]\<rparr>;
               (d, w2) = config_observe k w1
           in w2\<lparr>disposables := md_add k d (disposables w2)\<rparr>)"

text \<open>
  \<open>add(...keys)\<close>.  The rest parameter is a new array, which \<open>normaliseKeys\<close> receives as its
  input; it is allocated behind the caller's heap.  The keys are normalised before the loop
  starts.
\<close>

definition add :: "heap \<Rightarrow> jsval list \<Rightarrow> okl \<Rightarrow> outcome \<times> okl" where
  "add h args w =
     (case normaliseKeys (h @ [Iterable args]) (Ref (length h)) {} of
        Inl e \<Rightarrow> (Threw e, w)
      | Inr (ks, refs) \<Rightarrow> (Returned, fold add_key ks w))"

text \<open>The body of the loop of \<open>delete\<close>, for one key.\<close>

definition delete_key :: "string \<Rightarrow> okl \<Rightarrow> okl" where
  "delete_key k w =
     (let w1 = w\<lparr>keys := removeAll k (keys w)\<rparr>;
          w2 = cancel (md_of_key k (disposables w1)) w1
      in w2\<lparr>disposables := md_dispose_key k (disposables w2)\<rparr>)"

definition delete :: "heap \<Rightarrow> jsval list \<Rightarrow> okl \<Rightarrow> outcome \<times> okl" where
  "delete h args w =
     (case normaliseKeys (h @ [Iterable args]) (Ref (length h)) {} of
        Inl e \<Rightarrow> (Threw e, w)
      | Inr (ks, refs) \<Rightarrow> (Returned, fold delete_key ks w))"

definition clear :: "okl \<Rightarrow> outcome \<times> okl" where
  "clear w =
     (let w1 = w\<lparr>keys := []\<rparr>;
          w2 = cancel (md_all (disposables w1)) w1;
          w3 = w2\<lparr>disposables := md_dispose (disposables w2)\<rparr>
      in (Returned,
          w3\<lparr>disposables := md_new (next_ident w3), next_ident := Suc (next_ident w3)\<rparr>))"

text \<open>
  \<open>callback\<close> is a plain writable data property of the prototype
  (\<open>callback: {value: null, writable: true}\<close>): an assignment stores the value.
\<close>

definition set_callback :: "jsval \<Rightarrow> okl \<Rightarrow> outcome \<times> okl" where
  "set_callback v w = (Returned, w\<lparr>callback := v\<rparr>)"

text \<open>
  \<open>new ObservedKeyList(callback, ...keys)\<close>.  An omitted or undefined first argument takes
  the default \<open>null\<close>.  A constructor that throws leaves no instance behind.
\<close>

definition construct :: "jsval \<Rightarrow> heap \<Rightarrow> jsval list \<Rightarrow> error + okl" where
  "construct cb h args =
     (let cb' = (if cb = Undefined then Null else cb)
      in if cb' \<noteq> Null \<and> ''function'' \<noteq> typeof cb'
         then Inl (TypeError ''Callback argument is not a function'')
         else let w = \<lparr>keys = [], callback = cb', callbackQueued = False,
                        disposables = md_new 0, observers = [], ticks = 0, calls = [],
                        next_handle = 0, next_ident = 1\<rparr>
              in if args = [] then Inr w
                 else (case add h args w of
                         (Threw e, w') \<Rightarrow> Inl e
                       | (Returned, w') \<Rightarrow> Inr w'))"

text \<open>
  What can happen to an instance, in any order: calls of its methods, assignments to
  \<open>callback\<close>, change notifications from the host, and turns of the scheduler.  What the
  callback itself does when it runs is a sequence of further events.
\<close>

datatype event =
    Add heap "jsval list"
  | Delete heap "jsval list"
  | Clear
  | SetCallback jsval
  | Notify string
  | Tick

fun step :: "event \<Rightarrow> okl \<Rightarrow> okl" where
  "step (Add h args) w = snd (add h args w)"
| "step (Delete h args) w = snd (delete h args w)"
| "step Clear w = snd (clear w)"
| "step (SetCallback v) w = snd (set_callback v w)"
| "step (Notify k) w = notify k w"
| "step Tick w = snd (tick w)"

definition run :: "event list \<Rightarrow> okl \<Rightarrow> okl" where
  "run evs w = fold step evs w"

text \<open>
  What the class keeps true of an instance between two events: the flag is set exactly while
  one deferred closure waits, and the keys of the set, the entries of the store and the live
  observers correspond one to one.
\<close>

definition okl_inv :: "okl \<Rightarrow> bool" where
  "okl_inv w \<longleftrightarrow>
     ticks w = (if callbackQueued w then 1 else 0) \<and>
     map fst (entries (disposables w)) = keys w \<and>
     observers w = map (\<lambda>e. (snd e, fst e)) (entries (disposables w)) \<and>
     distinct (keys w) \<and>
     distinct (map snd (entries (disposables w))) \<and>
     (\<forall>e \<in> set (entries (disposables w)). snd e < next_handle w) \<and>
     \<not> disposed (disposables w) \<and>
     ident (disposables w) < next_ident w"

text \<open>The instance \<open>new ObservedKeyList(f, "x y")\<close>, before the scheduler's next turn.\<close>

definition okl_example :: okl where
  "okl_example =
     \<lparr>keys = [''x'', ''y''], callback = Fn 0 ''f'', callbackQueued = True,
      disposables = \<lparr>ident = 0, entries = [(''x'', 0), (''y'', 1)], disposed = False\<rparr>,
      observers = [(0, ''x''), (1, ''y'')], ticks = 1, calls = [],
      next_handle = 2, next_ident = 1\<rparr>"

text \<open>The instance \<open>new ObservedKeyList(f)\<close>.\<close>

definition okl_fresh :: okl where
  "okl_fresh =
     \<lparr>keys = [], callback = Fn 0 ''f'', callbackQueued = False,
      disposables = \<lparr>ident = 0, entries = [], disposed = False\<rparr>,
      observers = [], ticks = 0, calls = [], next_handle = 0, next_ident = 1\<rparr>"

text \<open>A key name: a string that is not empty and has no white space in it.\<close>

definition key_name :: "string \<Rightarrow> bool" where
  "key_name k \<longleftrightarrow> k \<noteq> [] \<and> list_all (\<lambda>c. \<not> js_space c) k"

section \<open>\<open>AtomLiveView\<close>: the render state\<close>

text \<open>
  The part of a view that \<open>handleRender\<close> and the observer of the active pane item read and
  write.
  \<^item> \<open>renderState\<close>: the property of that name;
  \<^item> \<open>visible\<close>: what \<open>getVisible()\<close> answers, a fact of the workspace;
  \<^item> \<open>awaiting\<close>: how many calls of \<open>handleRender\<close> are suspended at
    \<open>await this.render()\<close>;
  \<^item> \<open>renders\<close>: how often \<open>render()\<close> has been invoked;
  \<^item> \<open>emitted\<close>: the events emitted so far; \<open>emitter_live\<close>: whether the emitter exists
    and is not disposed;
  \<^item> \<open>offsets\<close>: the saved scroll offsets when they are an array of two numbers,
    \<open>scroll\<close>: the element's \<open>scrollLeft\<close> and \<open>scrollTop\<close>, \<open>restored\<close>: how often
    \<open>restoreOffsets\<close> has run;
  \<^item> \<open>history\<close>: the values assigned to \<open>renderState\<close>, in order.
\<close>

record view =
  renderState :: string
  visible :: bool
  awaiting :: nat
  renders :: nat
  emitted :: "string list"
  emitter_live :: bool
  offsets :: "(int \<times> int) option"
  scroll :: "int \<times> int"
  restored :: nat
  history :: "string list"

text \<open>
  A new view.  \<open>renderState\<close> is not assigned by the constructor: the instance reads the
  prototype's value, the empty string.
\<close>

definition new_view :: "(int \<times> int) option \<Rightarrow> bool \<Rightarrow> view" where
  "new_view offs vis =
     \<lparr>renderState = '''', visible = vis, awaiting = 0, renders = 0, emitted = [],
      emitter_live = True, offsets = offs, scroll = (0, 0), restored = 0, history = []\<rparr>"

definition assign_renderState :: "string \<Rightarrow> view \<Rightarrow> view" where
  "assign_renderState s v = v\<lparr>renderState := s, history := history v @ [s]\<rparr>"

definition emit :: "string \<Rightarrow> view \<Rightarrow> view" where
  "emit eventName v = (if emitter_live v then v\<lparr>emitted := emitted v @ [eventName]\<rparr> else v)"

definition restoreOffsets :: "view \<Rightarrow> view" where
  "restoreOffsets v =
     (let v1 = (case offsets v of Some (l, t) \<Rightarrow> v\<lparr>scroll := (l, t)\<rparr> | None \<Rightarrow> v)
      in v1\<lparr>offsets := None, restored := Suc (restored v1)\<rparr>)"

text \<open>
  \<open>handleRender\<close> up to its \<open>await\<close>: the call of \<open>render()\<close> is counted and the rest of the
  body is left waiting for the promise.
\<close>

definition handleRender :: "view \<Rightarrow> view" where
  "handleRender v =
     (if ''rendering'' = renderState v \<or> ''pending'' = renderState v then v
      else if visible v
      then (let v1 = assign_renderState ''rendering'' v;
                v2 = emit ''did-render-started'' v1
            in v2\<lparr>renders := Suc (renders v2), awaiting := Suc (awaiting v2)\<rparr>)
      else emit ''did-queue-render'' (assign_renderState ''pending'' v))"

text \<open>
  The promise of \<open>render()\<close> is fulfilled: the suspended call goes on behind the \<open>await\<close>.
  Without a suspended call there is nothing to go on.
\<close>

definition render_resolved :: "view \<Rightarrow> view" where
  "render_resolved v =
     (if awaiting v = 0 then v
      else restoreOffsets
             (emit ''did-render-finish''
               (assign_renderState ''finished'' (v\<lparr>awaiting := awaiting v - 1\<rparr>))))"

text \<open>
  \<open>render()\<close> throws, or its promise is rejected: the \<open>await\<close> throws inside \<open>handleRender\<close>,
  which has no handler for it, and the rest of its body never runs.
\<close>

definition render_rejected :: "view \<Rightarrow> view" where
  "render_rejected v = (if awaiting v = 0 then v else v\<lparr>awaiting := awaiting v - 1\<rparr>)"

text \<open>
  The observer that the constructor registers with \<open>atom.workspace.observeActivePaneItem\<close>;
  \<open>is_this\<close> is \<open>item === this\<close>.
\<close>

definition activePaneItem :: "bool \<Rightarrow> view \<Rightarrow> view" where
  "activePaneItem is_this v =
     (if is_this \<and> ''pending'' = renderState v
      then handleRender (assign_renderState ''none'' v)
      else v)"

text \<open>
  What can happen to a view: a render request, the end of a render, a change of the active
  pane item, and a change of what \<open>getVisible()\<close> answers.
\<close>

datatype view_event =
    HandleRender
  | RenderResolved
  | RenderRejected
  | ActivePaneItem bool
  | SetVisible bool

fun view_step :: "view_event \<Rightarrow> view \<Rightarrow> view" where
  "view_step HandleRender v = handleRender v"
| "view_step RenderResolved v = render_resolved v"
| "view_step RenderRejected v = render_rejected v"
| "view_step (ActivePaneItem is_this) v = activePaneItem is_this v"
| "view_step (SetVisible b) v = v\<lparr>visible := b\<rparr>"

definition view_run :: "view_event list \<Rightarrow> view \<Rightarrow> view" where
  "view_run evs v = fold view_step evs v"

section \<open>The invariant of \<open>ObservedKeyList\<close>\<close>

lemma handler_cases:
  "handler w = w \<or> (\<not> callbackQueued w \<and> handler w = w\<lparr>callbackQueued := True, ticks := Suc (ticks w)\<rparr>)"
  by (simp add: handler_def)

lemma okl_inv_handler: "okl_inv w \<Longrightarrow> okl_inv (handler w)"
  by (simp add: okl_inv_def handler_def)

lemma handler_frame:
  "keys (handler w) = keys w" "disposables (handler w) = disposables w"
  "observers (handler w) = observers w" "next_handle (handler w) = next_handle w"
  "next_ident (handler w) = next_ident w" "callback (handler w) = callback w"
  "calls (handler w) = calls w"
  by (simp_all add: handler_def)

lemma okl_inv_add_key: "okl_inv w \<Longrightarrow> okl_inv (add_key k w)"
proof (cases "k \<in> set (keys w)")
  case True
  assume "okl_inv w"
  with True show ?thesis by (simp add: add_key_def)
next
  case False
  assume inv: "okl_inv w"
  let ?w1 = "w\<lparr>keys := keys w @ [k]\<rparr>"
  let ?w2 = "handler ?w1"
  have eq: "add_key k w =
      ?w2\<lparr>observers := observers ?w2 @ [(next_handle ?w2, k)],
           next_handle := Suc (next_handle ?w2),
           disposables := md_add k (next_handle ?w2) (disposables ?w2)\<rparr>"
    using False by (simp add: add_key_def config_observe_def Let_def)
  have t: "ticks ?w2 = (if callbackQueued ?w2 then 1 else 0)"
    using inv by (simp add: okl_inv_def handler_def)
  show ?thesis
    unfolding eq using inv False t
    by (auto simp: okl_inv_def handler_frame md_add_def)
qed

lemma okl_inv_fold_add_key: "okl_inv w \<Longrightarrow> okl_inv (fold add_key ks w)"
  by (induction ks arbitrary: w) (simp_all add: okl_inv_add_key)

lemma swap_filter:
  "distinct (map snd es) \<Longrightarrow>
   filter (\<lambda>ob. fst ob \<notin> set (map snd (filter (\<lambda>e. fst e = k) es))) (map (\<lambda>e. (snd e, fst e)) es)
     = map (\<lambda>e. (snd e, fst e)) (filter (\<lambda>e. fst e \<noteq> k) es)"
proof -
  assume d: "distinct (map snd es)"
  have "\<And>e. e \<in> set es \<Longrightarrow>
          (snd e \<notin> set (map snd (filter (\<lambda>e. fst e = k) es))) = (fst e \<noteq> k)"
  proof -
    fix e assume e: "e \<in> set es"
    show "(snd e \<notin> set (map snd (filter (\<lambda>e. fst e = k) es))) = (fst e \<noteq> k)"
    proof (cases "fst e = k")
      case True
      with e show ?thesis by force
    next
      case False
      have "snd e \<notin> set (map snd (filter (\<lambda>e. fst e = k) es))"
      proof
        assume "snd e \<in> set (map snd (filter (\<lambda>e. fst e = k) es))"
        then obtain e' where e': "e' \<in> set es" "fst e' = k" "snd e' = snd e" by auto
        with d e have "e' = e" by (metis distinct_map inj_onD)
        with e' False show False by simp
      qed
      with False show ?thesis by simp
    qed
  qed
  then show ?thesis by (simp add: filter_map o_def cong: filter_cong)
qed

lemma map_fst_filter: "map fst (filter (\<lambda>e. fst e \<noteq> k) es) = removeAll k (map fst es)"
  by (induction es) auto

lemma okl_inv_delete_key: "okl_inv w \<Longrightarrow> okl_inv (delete_key k w)"
proof -
  assume inv: "okl_inv w"
  then have nd: "\<not> disposed (disposables w)" and d: "distinct (map snd (entries (disposables w)))"
    and ob: "observers w = map (\<lambda>e. (snd e, fst e)) (entries (disposables w))"
    and ks: "map fst (entries (disposables w)) = keys w"
    by (simp_all add: okl_inv_def)
  have k': "map fst (filter (\<lambda>e. fst e \<noteq> k) (entries (disposables w))) = removeAll k (keys w)"
    unfolding ks [symmetric] by (rule map_fst_filter)
  show ?thesis
    using inv nd k' swap_filter [OF d, of k]
    by (auto simp: okl_inv_def delete_key_def cancel_def md_of_key_def md_dispose_key_def
          Let_def ob distinct_removeAll distinct_map_filter)
qed

lemma okl_inv_fold_delete_key: "okl_inv w \<Longrightarrow> okl_inv (fold delete_key ks w)"
  by (induction ks arbitrary: w) (simp_all add: okl_inv_delete_key)

lemma okl_inv_add: "okl_inv w \<Longrightarrow> okl_inv (snd (add h args w))"
  by (simp add: add_def okl_inv_fold_add_key split: sum.splits prod.splits)

lemma okl_inv_delete: "okl_inv w \<Longrightarrow> okl_inv (snd (delete h args w))"
  by (simp add: delete_def okl_inv_fold_delete_key split: sum.splits prod.splits)

lemma okl_inv_clear: "okl_inv w \<Longrightarrow> okl_inv (snd (clear w))"
  by (simp add: okl_inv_def clear_def cancel_def md_all_def md_dispose_def md_new_def Let_def)

lemma okl_inv_set_callback: "okl_inv w \<Longrightarrow> okl_inv (snd (set_callback v w))"
  by (simp add: okl_inv_def set_callback_def)

lemma okl_inv_fold_handler: "okl_inv w \<Longrightarrow> okl_inv (fold (\<lambda>_. handler) xs w)"
  by (induction xs arbitrary: w) (simp_all add: okl_inv_handler)

lemma okl_inv_notify: "okl_inv w \<Longrightarrow> okl_inv (notify k w)"
  by (simp add: notify_def okl_inv_fold_handler)

lemma okl_inv_tick: "okl_inv w \<Longrightarrow> okl_inv (snd (tick w))"
  by (auto simp: okl_inv_def tick_def deferred_def Let_def)

lemma okl_inv_step: "okl_inv w \<Longrightarrow> okl_inv (step ev w)"
  by (cases ev)
     (simp_all add: okl_inv_add okl_inv_delete okl_inv_clear okl_inv_set_callback
        okl_inv_notify okl_inv_tick)

lemma okl_inv_run: "okl_inv w \<Longrightarrow> okl_inv (run evs w)"
  unfolding run_def by (induction evs arbitrary: w) (simp_all add: okl_inv_step)

lemma okl_inv_construct: "construct cb h args = Inr w \<Longrightarrow> okl_inv w"
proof -
  let ?cb = "if cb = Undefined then Null else cb"
  let ?w = "\<lparr>keys = [], callback = ?cb, callbackQueued = False,
            disposables = md_new 0, observers = [], ticks = 0, calls = [],
            next_handle = 0, next_ident = 1\<rparr>"
  assume c: "construct cb h args = Inr w"
  have i: "okl_inv ?w" by (simp add: okl_inv_def md_new_def)
  from c have "w = ?w \<or> w = snd (add h args ?w)"
    by (auto simp: construct_def Let_def split: if_splits prod.splits outcome.splits)
  with i okl_inv_add [OF i] show ?thesis by auto
qed

section \<open>Coalescing of change notifications\<close>

lemma function_truthy: "typeof v = ''function'' \<Longrightarrow> truthy v"
  by (cases v) simp_all

lemma fold_handler_queued: "callbackQueued w \<Longrightarrow> fold (\<lambda>_. handler) xs w = w"
  by (induction xs) (simp_all add: handler_def)

lemma notify_queued: "callbackQueued w \<Longrightarrow> notify k w = w"
  by (simp add: notify_def fold_handler_queued)

lemma run_notify_queued: "callbackQueued w \<Longrightarrow> run (map Notify ks) w = w"
  unfolding run_def by (induction ks) (simp_all add: notify_queued)

lemma run_append: "run (xs @ ys) w = run ys (run xs w)"
  by (simp add: run_def)

lemma fold_handler_first:
  "xs \<noteq> [] \<Longrightarrow> \<not> callbackQueued w \<Longrightarrow> truthy (callback w) \<Longrightarrow>
     fold (\<lambda>_. handler) xs w = w\<lparr>callbackQueued := True, ticks := Suc (ticks w)\<rparr>"
  by (cases xs) (simp_all add: handler_def fold_handler_queued)

lemma observed_key:
  "okl_inv w \<Longrightarrow> k \<in> set (keys w) \<Longrightarrow> filter (\<lambda>ob. snd ob = k) (observers w) \<noteq> []"
proof -
  assume inv: "okl_inv w" and k: "k \<in> set (keys w)"
  from inv have ks: "map fst (entries (disposables w)) = keys w"
    and ob: "observers w = map (\<lambda>e. (snd e, fst e)) (entries (disposables w))"
    by (simp_all add: okl_inv_def)
  from k have "k \<in> fst ` set (entries (disposables w))"
    unfolding ks [symmetric] by simp
  then obtain e where e: "e \<in> set (entries (disposables w))" "fst e = k" by blast
  have "(snd e, fst e) \<in> set (observers w)" unfolding ob using e(1) by simp
  then have "\<exists>ob \<in> set (observers w). snd ob = k" using e(2) by (intro bexI) simp_all
  then show ?thesis by (simp add: filter_empty_conv)
qed

lemma notify_silent: "\<not> truthy (callback w) \<Longrightarrow> notify k w = w"
proof -
  assume s: "\<not> truthy (callback w)"
  have "fold (\<lambda>_. handler) xs w = w" for xs :: "(nat \<times> string) list"
    by (induction xs) (simp_all add: handler_def s)
  then show ?thesis by (simp add: notify_def)
qed

text \<open>
  Claim C1, as stated, fails for an instance whose callback is null.  The handler returns
  when \<open>this.callback\<close> is falsy, before it sets the flag.  Take
  \<open>new ObservedKeyList(f, "x y")\<close>, let the scheduler run, so that the deferred call has been
  made, and assign \<open>callback = null\<close>.  A notification for \<open>x\<close> now leaves the instance as it
  is: nothing is scheduled, and when \<open>f\<close> is assigned again and the scheduler runs, \<open>f\<close> has
  still been called once only.
\<close>

theorem silent_instance_counterexample:
  "calls (run [Tick, SetCallback Null] okl_example) = [(Fn 0 ''f'', [])] \<and>
   ticks (run [Tick, SetCallback Null] okl_example) = 0 \<and>
   ''x'' \<in> set (keys (run [Tick, SetCallback Null] okl_example)) \<and>
   run [Notify ''x''] (run [Tick, SetCallback Null] okl_example)
     = run [Tick, SetCallback Null] okl_example \<and>
   ticks (run [Tick, SetCallback Null, Notify ''x''] okl_example) = 0 \<and>
   calls (run [Tick, SetCallback Null, Notify ''x'', SetCallback (Fn 0 ''f''), Tick] okl_example)
     = [(Fn 0 ''f'', [])]"
  by (simp add: run_def tick_def deferred_def set_callback_def notify_def handler_def
        okl_example_def)

text \<open>
  Claim C1, amended.  Take any instance that the constructor has returned, and any sequence
  of events after that.  In the state reached, at most one deferred closure is scheduled and
  has not run.  While one is scheduled, change notifications for any keys, in any number,
  leave the state as it is; if the callback is a function, the scheduler's next turn then
  calls it exactly once and leaves nothing scheduled.  When none is scheduled, a notification
  for an observed key schedules one closure, without calling the callback, if the callback
  is truthy, and the turn after it makes one further call if the callback is a function; if
  the callback is null, a notification schedules nothing.
\<close>

theorem okl_coalescing:
  "construct cb h args = Inr w0 \<Longrightarrow> w = run evs w0 \<Longrightarrow>
     ticks w \<le> 1 \<and>
     (ticks w = 1 \<longrightarrow> run (map Notify ks) w = w) \<and>
     (ticks w = 1 \<and> typeof (callback w) = ''function'' \<longrightarrow>
        calls (run (map Notify ks @ [Tick]) w) = calls w @ [(callback w, [])] \<and>
        ticks (run (map Notify ks @ [Tick]) w) = 0) \<and>
     (ticks w = 0 \<and> truthy (callback w) \<and> k \<in> set (keys w) \<longrightarrow>
        ticks (run [Notify k] w) = 1 \<and>
        calls (run [Notify k] w) = calls w) \<and>
     (ticks w = 0 \<and> typeof (callback w) = ''function'' \<and> k \<in> set (keys w) \<longrightarrow>
        calls (run [Notify k, Tick] w) = calls w @ [(callback w, [])]) \<and>
     (callback w = Null \<longrightarrow> run [Notify k] w = w)"
proof -
  assume c: "construct cb h args = Inr w0" and w: "w = run evs w0"
  have inv: "okl_inv w" unfolding w by (rule okl_inv_run [OF okl_inv_construct [OF c]])
  then have t: "ticks w = (if callbackQueued w then 1 else 0)" by (simp add: okl_inv_def)
  have q: "callbackQueued w \<longleftrightarrow> ticks w = 1"
    by (cases "callbackQueued w") (simp_all add: t)
  have 1: "ticks w \<le> 1"
    by (cases "callbackQueued w") (simp_all add: t)
  have 2: "run (map Notify ks) w = w" if "ticks w = 1"
    by (rule run_notify_queued) (simp add: q that)
  have 3: "calls (run (map Notify ks @ [Tick]) w) = calls w @ [(callback w, [])] \<and>
        ticks (run (map Notify ks @ [Tick]) w) = 0"
    if "ticks w = 1" "typeof (callback w) = ''function''"
    by (simp add: run_append 2 [OF that(1)]) (simp add: run_def tick_def deferred_def that)
  have n: "notify k w = w\<lparr>callbackQueued := True, ticks := Suc (ticks w)\<rparr>"
    if a: "ticks w = 0" "truthy (callback w)" "k \<in> set (keys w)"
  proof -
    from a(1) have nq: "\<not> callbackQueued w" by (simp add: q)
    show ?thesis
      unfolding notify_def
      by (rule fold_handler_first [OF observed_key [OF inv a(3)] nq a(2)])
  qed
  have 4: "ticks (run [Notify k] w) = 1 \<and> calls (run [Notify k] w) = calls w"
    if a: "ticks w = 0" "truthy (callback w)" "k \<in> set (keys w)"
    by (simp add: run_def n [OF a] a(1))
  have 5: "calls (run [Notify k, Tick] w) = calls w @ [(callback w, [])]"
    if a: "ticks w = 0" "typeof (callback w) = ''function''" "k \<in> set (keys w)"
    by (simp add: run_def n [OF a(1) function_truthy [OF a(2)] a(3)] tick_def deferred_def a(1,2))
  have 6: "run [Notify k] w = w" if "callback w = Null"
    by (simp add: run_def notify_silent that)
  from 1 2 3 4 5 6 show ?thesis by blast
qed

text \<open>
  The amended claim on the instance \<open>new ObservedKeyList(f, "x y")\<close>: three notifications
  before the scheduler's turn, and one after it.
\<close>

theorem okl_coalescing_witness:
  "construct (Fn 0 ''f'') [] [Str ''x y''] = Inr okl_example \<and>
   ticks okl_example = 1 \<and>
   run (map Notify [''x'', ''y'', ''x'']) okl_example = okl_example \<and>
   calls (run (map Notify [''x'', ''y'', ''x''] @ [Tick]) okl_example) = [(Fn 0 ''f'', [])] \<and>
   ticks (run (map Notify [''x'', ''y'', ''x''] @ [Tick]) okl_example) = 0 \<and>
   ticks (run [Notify ''y''] (run [Tick] okl_example)) = 1 \<and>
   calls (run [Notify ''y'', Tick] (run [Tick] okl_example)) = [(Fn 0 ''f'', []), (Fn 0 ''f'', [])]"
proof -
  have c: "construct (Fn 0 ''f'') [] [Str ''x y''] = Inr okl_example"
    by code_simp
  have r: "okl_example = run [] okl_example"
    by (simp add: run_def)
  have t: "ticks okl_example = 1" and f: "typeof (callback okl_example) = ''function''"
    and cs: "calls okl_example = []" and cb: "callback okl_example = Fn 0 ''f''"
    by (simp_all add: okl_example_def)
  have t': "ticks (run [Tick] okl_example) = 0"
    and f': "typeof (callback (run [Tick] okl_example)) = ''function''"
    and g': "truthy (callback (run [Tick] okl_example))"
    and cs': "calls (run [Tick] okl_example) = [(Fn 0 ''f'', [])]"
    and cb': "callback (run [Tick] okl_example) = Fn 0 ''f''"
    and k': "''y'' \<in> set (keys (run [Tick] okl_example))"
    by (simp_all add: okl_example_def run_def tick_def deferred_def)
  from okl_coalescing [OF c r, of "[''x'', ''y'', ''x'']" "''x''"] t f
  have a: "run (map Notify [''x'', ''y'', ''x'']) okl_example = okl_example"
    "calls (run (map Notify [''x'', ''y'', ''x''] @ [Tick]) okl_example) = [(Fn 0 ''f'', [])]"
    "ticks (run (map Notify [''x'', ''y'', ''x''] @ [Tick]) okl_example) = 0"
    by (simp_all only: cs cb append_Nil)
  from okl_coalescing [OF c refl, of "[Tick]" "[]" "''y''"] t' f' g' k'
  have b: "ticks (run [Notify ''y''] (run [Tick] okl_example)) = 1"
    "calls (run [Notify ''y'', Tick] (run [Tick] okl_example)) = [(Fn 0 ''f'', []), (Fn 0 ''f'', [])]"
    by (simp_all only: cs' cb' append_Cons append_Nil)
  from c t a b show ?thesis by (simp only: simp_thms)
qed

section \<open>The deferred call and the \<open>callback\<close> property\<close>

text \<open>
  Claim C2.  The claim has the deferred closure call the callback only if it is still
  non-null when the closure runs.  The closure has no such test: the handler tests the
  callback when the notification arrives, the closure clears the flag and calls
  \<open>this.callback()\<close> as it is.  After \<open>new ObservedKeyList(f, "x y")\<close> and
  \<open>callback = null\<close>, the scheduler's next turn clears the flag and throws a
  \<open>TypeError\<close>.
\<close>

theorem deferred_null_callback_throws:
  "run [SetCallback Null] okl_example = okl_example\<lparr>callback := Null\<rparr> \<and>
   tick (okl_example\<lparr>callback := Null\<rparr>) =
     (Threw (TypeError ''this.callback is not a function''),
      okl_example\<lparr>callback := Null, callbackQueued := False, ticks := 0\<rparr>)"
  by (simp add: run_def set_callback_def tick_def deferred_def okl_example_def)

text \<open>
  Claim C3, as stated, fails for the assignment: \<open>list.callback = 50\<close> returns, and the
  instance then holds \<open>50\<close> in place of its function.
\<close>

theorem set_callback_counterexample:
  "Num 50 \<noteq> Null \<and> typeof (Num 50) \<noteq> ''function'' \<and>
   set_callback (Num 50) okl_example = (Returned, okl_example\<lparr>callback := Num 50\<rparr>) \<and>
   callback (okl_example\<lparr>callback := Num 50\<rparr>) \<noteq> callback okl_example"
  by (simp add: set_callback_def okl_example_def)

text \<open>
  Claim C3, amended.  The constructor throws a \<open>TypeError\<close> for a callback argument that is
  neither null nor undefined nor a function, and then there is no instance.  An assignment
  to \<open>callback\<close> is not validated: for every value it returns, stores the value and leaves
  the other properties as they are.
\<close>

theorem callback_validation:
  "(cb \<noteq> Null \<and> cb \<noteq> Undefined \<and> typeof cb \<noteq> ''function'' \<longrightarrow>
      construct cb h args = Inl (TypeError ''Callback argument is not a function'')) \<and>
   set_callback v w = (Returned, w\<lparr>callback := v\<rparr>)"
  by (simp add: construct_def set_callback_def)

text \<open>
  The amended claim at \<open>false\<close>, the third value of the repository's test of the
  constructor.
\<close>

theorem callback_validation_witness:
  "Bool False \<noteq> Null \<and> Bool False \<noteq> Undefined \<and> typeof (Bool False) \<noteq> ''function'' \<and>
   construct (Bool False) [] [Str ''x''] = Inl (TypeError ''Callback argument is not a function'') \<and>
   set_callback (Bool False) okl_example = (Returned, okl_example\<lparr>callback := Bool False\<rparr>)"
  using callback_validation [of "Bool False" "[]" "[Str ''x'']" "Bool False" okl_example]
  by simp

section \<open>\<open>clear\<close>\<close>

lemma clear_reachable:
  assumes inv: "okl_inv w"
  shows "clear w = (Returned, w\<lparr>keys := [], observers := [], disposables := md_new (next_ident w), next_ident := Suc (next_ident w)\<rparr>)"
proof -
  from inv have nd: "\<not> disposed (disposables w)"
    and ob: "observers w = map (\<lambda>e. (snd e, fst e)) (entries (disposables w))"
    by (simp_all add: okl_inv_def)
  have "filter (\<lambda>ob. fst ob \<notin> set (map snd (entries (disposables w)))) (observers w) = []"
    unfolding ob by (simp add: filter_empty_conv)
  then show ?thesis
    using nd by (simp add: clear_def cancel_def md_all_def md_dispose_def Let_def)
qed

text \<open>
  Claim C9.  In every state an instance can reach, \<open>clear()\<close> returns, empties the set,
  leaves no observer of the instance registered, and assigns a new, empty store that is not
  disposed and is not the store the instance had; \<open>callback\<close> and the other properties keep
  their values.  On an instance with no keys, the new store is the only change.
\<close>

theorem clear_resets:
  "construct cb h args = Inr w0 \<Longrightarrow> w = run evs w0 \<Longrightarrow>
     clear w = (Returned,
                w\<lparr>keys := [], observers := [],
                   disposables := md_new (next_ident w),
                   next_ident := Suc (next_ident w)\<rparr>) \<and>
     md_new (next_ident w) = \<lparr>ident = next_ident w, entries = [], disposed = False\<rparr> \<and>
     ident (md_new (next_ident w)) \<noteq> ident (disposables w) \<and>
     callback (snd (clear w)) = callback w \<and>
     (keys w = [] \<longrightarrow>
        clear w = (Returned,
                   w\<lparr>disposables := md_new (next_ident w), next_ident := Suc (next_ident w)\<rparr>))"
proof -
  assume c: "construct cb h args = Inr w0" and w: "w = run evs w0"
  have inv: "okl_inv w" unfolding w by (rule okl_inv_run [OF okl_inv_construct [OF c]])
  note cl = clear_reachable [OF inv]
  have fresh: "ident (md_new (next_ident w)) \<noteq> ident (disposables w)"
    using inv by (simp add: okl_inv_def md_new_def)
  have empty: "w\<lparr>keys := [], observers := []\<rparr> = w" if "keys w = []"
  proof -
    from inv that have "entries (disposables w) = []" by (simp add: okl_inv_def)
    with inv have "observers w = []" by (simp add: okl_inv_def)
    with that show ?thesis by simp
  qed
  have idem: "clear w = (Returned,
                   w\<lparr>disposables := md_new (next_ident w), next_ident := Suc (next_ident w)\<rparr>)"
    if "keys w = []"
  proof -
    have "clear w = (Returned, (w\<lparr>keys := [], observers := []\<rparr>)\<lparr>disposables := md_new (next_ident w), next_ident := Suc (next_ident w)\<rparr>)"
      unfolding cl by simp
    then show ?thesis unfolding empty [OF that] .
  qed
  show ?thesis using cl fresh idem by (simp add: md_new_def)
qed

text \<open>
  The claim at \<open>new ObservedKeyList(f, "x y")\<close>: a first \<open>clear()\<close>, and a second one on
  the instance that the first has emptied.
\<close>

theorem clear_resets_witness:
  "construct (Fn 0 ''f'') [] [Str ''x y''] = Inr okl_example \<and>
   clear okl_example =
     (Returned,
      \<lparr>keys = [], callback = Fn 0 ''f'', callbackQueued = True,
       disposables = \<lparr>ident = 1, entries = [], disposed = False\<rparr>,
       observers = [], ticks = 1, calls = [], next_handle = 2, next_ident = 2\<rparr>) \<and>
   clear (snd (clear okl_example)) =
     (Returned,
      \<lparr>keys = [], callback = Fn 0 ''f'', callbackQueued = True,
       disposables = \<lparr>ident = 2, entries = [], disposed = False\<rparr>,
       observers = [], ticks = 1, calls = [], next_handle = 2, next_ident = 3\<rparr>)"
proof -
  have c: "construct (Fn 0 ''f'') [] [Str ''x y''] = Inr okl_example"
    by code_simp
  have r: "okl_example = run [] okl_example"
    by (simp add: run_def)
  have r': "snd (clear okl_example) = run [Clear] okl_example"
    by (simp add: run_def)
  have k: "keys (snd (clear okl_example)) = []"
    by (simp add: clear_def Let_def cancel_def)
  from clear_resets [OF c r]
  have a: "clear okl_example = (Returned,
                okl_example\<lparr>keys := [], observers := [],
                   disposables := md_new (next_ident okl_example),
                   next_ident := Suc (next_ident okl_example)\<rparr>)"
    by simp
  have b: "clear (snd (clear okl_example)) = (Returned,
             (snd (clear okl_example))\<lparr>disposables := md_new (next_ident (snd (clear okl_example))),
                next_ident := Suc (next_ident (snd (clear okl_example)))\<rparr>)"
    by (rule clear_resets [OF c r', THEN conjunct2, THEN conjunct2, THEN conjunct2,
          THEN conjunct2, THEN mp, OF k])
  have a': "clear okl_example =
     (Returned,
      \<lparr>keys = [], callback = Fn 0 ''f'', callbackQueued = True,
       disposables = \<lparr>ident = 1, entries = [], disposed = False\<rparr>,
       observers = [], ticks = 1, calls = [], next_handle = 2, next_ident = 2\<rparr>)"
    unfolding a by (simp add: okl_example_def md_new_def)
  have b': "clear (snd (clear okl_example)) =
     (Returned,
      \<lparr>keys = [], callback = Fn 0 ''f'', callbackQueued = True,
       disposables = \<lparr>ident = 2, entries = [], disposed = False\<rparr>,
       observers = [], ticks = 1, calls = [], next_handle = 2, next_ident = 3\<rparr>)"
    unfolding b unfolding a' by (simp add: md_new_def)
  from c a' b' show ?thesis by (simp only: simp_thms)
qed

section \<open>The loop of \<open>normaliseKeys\<close>, case by case\<close>

lemma normaliseKeys_Ref:
  "normaliseKeys h (Ref a) refs =
     (case iterate h a of
        None \<Rightarrow> Inl (TypeError ''Object is not iterable'')
      | Some vs \<Rightarrow> keys_loop h vs (insert a refs))"
  by simp

lemma keys_loop_falsy: "\<not> truthy v \<Longrightarrow> keys_loop h (v # vs) refs = keys_loop h vs refs"
  by simp

lemma keys_loop_other:
  "typeof v \<noteq> ''string'' \<Longrightarrow> typeof v \<noteq> ''object'' \<Longrightarrow>
     keys_loop h (v # vs) refs = keys_loop h vs refs"
  by (cases v) simp_all

lemma keys_loop_Str:
  "s \<noteq> [] \<Longrightarrow> keys_loop h (Str s # vs) refs =
     (case keys_loop h vs refs of
        Inl e \<Rightarrow> Inl e
      | Inr (out, r) \<Rightarrow> Inr (split_ws (trim s) @ out, r))"
  by simp

lemma keys_loop_Ref_seen: "a \<in> refs \<Longrightarrow> keys_loop h (Ref a # vs) refs = keys_loop h vs refs"
  by simp

lemma keys_loop_Ref_new:
  "a \<notin> refs \<Longrightarrow> keys_loop h (Ref a # vs) refs =
     (case iterate h a of
        None \<Rightarrow> Inl (TypeError ''Object is not iterable'')
      | Some es \<Rightarrow>
          (case keys_loop h es (insert a refs) of
             Inl e \<Rightarrow> Inl e
           | Inr (sub, r1) \<Rightarrow>
               (case keys_loop h vs r1 of
                  Inl e \<Rightarrow> Inl e
                | Inr (out, r2) \<Rightarrow> Inr (sub @ out, r2))))"
  by (simp split: option.splits)

declare normaliseKeys.simps [simp del] keys_loop.simps(2) [simp del]

declare normaliseKeys_Ref [simp] keys_loop_falsy [simp] keys_loop_other [simp]
  keys_loop_Str [simp] keys_loop_Ref_seen [simp]

text \<open>
  Induction along the loop alone: the nested call is the loop over the elements of the
  object, with the object marked.
\<close>

lemma keys_loop_induct [consumes 0, case_names Nil Skip Str Seen Plain Nested]:
  assumes nil: "\<And>refs. P [] refs"
    and skip: "\<And>v vs refs. keys_loop h (v # vs) refs = keys_loop h vs refs \<Longrightarrow>
                 (\<forall>a. v \<noteq> Ref a) \<Longrightarrow> P vs refs \<Longrightarrow> P (v # vs) refs"
    and str: "\<And>s vs refs. s \<noteq> [] \<Longrightarrow> P vs refs \<Longrightarrow> P (Str s # vs) refs"
    and seen: "\<And>a vs refs. a \<in> refs \<Longrightarrow> P vs refs \<Longrightarrow> P (Ref a # vs) refs"
    and plain: "\<And>a vs refs. a \<notin> refs \<Longrightarrow> iterate h a = None \<Longrightarrow> P (Ref a # vs) refs"
    and nested: "\<And>a vs refs es. a \<notin> refs \<Longrightarrow> iterate h a = Some es \<Longrightarrow>
                 P es (insert a refs) \<Longrightarrow>
                 (\<And>sub r1. keys_loop h es (insert a refs) = Inr (sub, r1) \<Longrightarrow> P vs r1) \<Longrightarrow>
                 P (Ref a # vs) refs"
  shows "P vs refs"
proof -
  define Q where "Q h' v refs \<longleftrightarrow>
      (h' = h \<longrightarrow> (\<forall>a es. v = Ref a \<longrightarrow> iterate h a = Some es \<longrightarrow> P es (insert a refs)))"
    for h' v refs
  define P' where "P' h' vs refs \<longleftrightarrow> (h' = h \<longrightarrow> P vs refs)" for h' vs refs
  have "P' h vs refs"
  proof (rule normaliseKeys_keys_loop.induct(2) [where P = Q and Q = P'], goal_cases)
    case (1 h' input refs)
    show ?case unfolding Q_def
    proof (intro impI allI)
      fix a es assume "h' = h" "input = Ref a" "iterate h a = Some es"
      with "1"(6) [of a es] show "P es (insert a refs)" by (simp add: P'_def)
    qed
  next
    case (2 h' refs)
    show ?case unfolding P'_def by (simp add: nil)
  next
    case (3 h' v vs refs)
    show ?case unfolding P'_def
    proof
      assume hh: "h' = h"
      show "P (v # vs) refs"
      proof (cases "truthy v")
        case False
        from "3"(1) [OF False] hh have "P vs refs" by (simp add: P'_def)
        moreover from False have "\<forall>a. v \<noteq> Ref a" by auto
        ultimately show ?thesis using False by (intro skip) simp_all
      next
        case True
        then have tv: "\<not> \<not> truthy v" by simp
        show ?thesis
        proof (cases v)
          case Undefined with True show ?thesis by simp
        next
          case Null with True show ?thesis by simp
        next
          case (Bool b)
          from "3"(4) [OF tv Bool] hh have "P vs refs" by (simp add: P'_def)
          then show ?thesis unfolding Bool by (intro skip) simp_all
        next
          case (Num n)
          from "3"(5) [OF tv Num] hh have "P vs refs" by (simp add: P'_def)
          then show ?thesis unfolding Num by (intro skip) simp_all
        next
          case (Fn f src)
          from "3"(7) [OF tv Fn] hh have "P vs refs" by (simp add: P'_def)
          then show ?thesis unfolding Fn by (intro skip) simp_all
        next
          case (Str s)
          from "3"(6) [OF tv Str] hh have "P vs refs" by (simp add: P'_def)
          with True Str show ?thesis by (simp add: str)
        next
          case (Ref a)
          show ?thesis
          proof (cases "a \<in> refs")
            case True
            from "3"(8) [OF tv Ref True] hh have "P vs refs" by (simp add: P'_def)
            with True Ref show ?thesis by (simp add: seen)
          next
            case False
            note nf = this
            show ?thesis
            proof (cases "iterate h a")
              case None
              with nf Ref show ?thesis by (simp add: plain)
            next
              case (Some es)
              from "3"(9) [OF tv Ref nf] hh Some Ref
              have 1: "P es (insert a refs)" by (simp add: Q_def)
              have 2: "P vs r1" if "keys_loop h es (insert a refs) = Inr (sub, r1)" for sub r1
              proof -
                from that Some hh Ref
                have "normaliseKeys h' v (insert a refs) = Inr (sub, r1)" by simp
                from "3"(10) [OF tv Ref nf this refl] hh show ?thesis by (simp add: P'_def)
              qed
              from nested [OF nf Some 1 2] Ref show ?thesis by simp
            qed
          qed
        qed
      qed
    qed
  qed
  then show ?thesis by (simp add: P'_def)
qed

section \<open>Arguments that are not iterable\<close>

text \<open>
  An object that is not iterable is never marked by a call that returns: the call that
  would mark it throws.
\<close>

lemma plain_unmarked:
  assumes pl: "iterate h a = None"
  shows "keys_loop h vs refs = Inr (out, r) \<Longrightarrow> a \<notin> refs \<Longrightarrow> a \<notin> r \<and> Ref a \<notin> set vs"
proof (induction vs refs arbitrary: out r rule: keys_loop_induct [where h = h])
  case (Nil refs)
  then show ?case by simp
next
  case (Skip v vs refs)
  from Skip.prems(1) Skip.hyps(1) have "keys_loop h vs refs = Inr (out, r)" by simp
  from Skip.IH [OF this Skip.prems(2)] Skip.hyps(2) show ?case by auto
next
  case (Str s vs refs)
  from Str.prems(1) Str.hyps obtain out' where "keys_loop h vs refs = Inr (out', r)"
    by (cases "keys_loop h vs refs") (auto simp: keys_loop_Str split: prod.splits)
  from Str.IH [OF this Str.prems(2)] show ?case by simp
next
  case (Seen b vs refs)
  from Seen.prems(1) Seen.hyps have "keys_loop h vs refs = Inr (out, r)"
    by (simp add: keys_loop_Ref_seen)
  from Seen.IH [OF this Seen.prems(2)] Seen.hyps Seen.prems(2) show ?case by auto
next
  case (Plain b vs refs)
  then show ?case by (simp add: keys_loop_Ref_new)
next
  case (Nested b vs refs es)
  from Nested.hyps(2) pl have ne: "b \<noteq> a" by auto
  from Nested.prems(1) Nested.hyps(1,2) obtain sub r1 where
    1: "keys_loop h es (insert b refs) = Inr (sub, r1)"
    by (cases "keys_loop h es (insert b refs)") (auto simp: keys_loop_Ref_new)
  with Nested.prems(1) Nested.hyps(1,2) obtain out' where
    2: "keys_loop h vs r1 = Inr (out', r)"
    by (cases "keys_loop h vs r1") (auto simp: keys_loop_Ref_new)
  from Nested.IH(1) [OF 1] ne Nested.prems(2) have "a \<notin> r1" by simp
  from Nested.IH(2) [OF 1 2 this] ne show ?case by simp
qed

lemma keys_loop_error:
  "keys_loop h vs refs = Inl e \<Longrightarrow> e = TypeError ''Object is not iterable''"
proof (induction vs refs rule: keys_loop_induct [where h = h])
  case (Nil refs)
  then show ?case by simp
next
  case (Skip v vs refs)
  then show ?case by simp
next
  case (Str s vs refs)
  then show ?case
    by (cases "keys_loop h vs refs") (auto simp: keys_loop_Str split: prod.splits)
next
  case (Seen b vs refs)
  then show ?case by (simp add: keys_loop_Ref_seen)
next
  case (Plain b vs refs)
  then show ?case by (simp add: keys_loop_Ref_new)
next
  case (Nested b vs refs es)
  show ?case
  proof (cases "keys_loop h es (insert b refs)")
    case (Inl e')
    with Nested.prems Nested.hyps(1,2) have "e' = e" by (simp add: keys_loop_Ref_new)
    with Inl Nested.IH(1) show ?thesis by simp
  next
    case (Inr p)
    obtain sub r1 where p: "p = (sub, r1)" by (cases p)
    with Inr Nested.prems Nested.hyps(1,2) have "keys_loop h vs r1 = Inl e"
      by (cases "keys_loop h vs r1") (auto simp: keys_loop_Ref_new)
    from Nested.IH(2) [OF Inr [unfolded p] this] show ?thesis .
  qed
qed

lemma normalise_args:
  "normaliseKeys (h @ [Iterable args]) (Ref (length h)) {} =
     keys_loop (h @ [Iterable args]) args {length h}"
  by (simp add: iterate_def)

lemma iterate_append: "a < length h \<Longrightarrow> iterate (h @ xs) a = iterate h a"
  by (simp add: iterate_def nth_append)

lemma normalise_not_iterable:
  assumes "Ref a \<in> set args" "a < length h" "h ! a = Plain"
  shows "normaliseKeys (h @ [Iterable args]) (Ref (length h)) {} =
           Inl (TypeError ''Object is not iterable'')"
proof -
  let ?H = "h @ [Iterable args]"
  have pl: "iterate ?H a = None"
    using assms(2,3) by (simp add: iterate_append) (simp add: iterate_def)
  have nm: "a \<notin> {length h}" using assms(2) by simp
  show ?thesis
  proof (cases "keys_loop ?H args {length h}")
    case (Inl e)
    with keys_loop_error [OF Inl] show ?thesis by (simp only: normalise_args)
  next
    case (Inr p)
    obtain out r where "p = (out, r)" by (cases p)
    with Inr plain_unmarked [OF pl _ nm, of args out r] assms(1) show ?thesis by simp
  qed
qed

text \<open>
  Claim C8, as stated, fails in its second half.  \<open>normaliseKeys\<close> returns the whole array
  of keys before the loop of \<open>add\<close> or \<open>delete\<close> starts, so when it throws no key of
  the call has been processed: \<open>add("a", {})\<close> throws and \<open>"a"\<close> is not in the set,
  \<open>delete("x", {})\<close> throws and \<open>"x"\<close> is still observed.
\<close>

theorem not_iterable_counterexample:
  "add [Plain] [Str ''a'', Ref 0] okl_example =
     (Threw (TypeError ''Object is not iterable''), okl_example) \<and>
   ''a'' \<notin> set (keys okl_example) \<and>
   delete [Plain] [Str ''x'', Ref 0] okl_example =
     (Threw (TypeError ''Object is not iterable''), okl_example) \<and>
   ''x'' \<in> set (keys okl_example)"
  by code_simp

text \<open>
  Claim C8, amended.  When an argument of \<open>add\<close> or \<open>delete\<close> is an object that is not
  iterable, wherever it stands among the arguments, the call throws the \<open>TypeError\<close>
  "Object is not iterable" and leaves the instance exactly as it was.
\<close>

theorem not_iterable_throws:
  "Ref a \<in> set args \<Longrightarrow> a < length h \<Longrightarrow> h ! a = Plain \<Longrightarrow>
     add h args w = (Threw (TypeError ''Object is not iterable''), w) \<and>
     delete h args w = (Threw (TypeError ''Object is not iterable''), w)"
proof -
  assume a: "Ref a \<in> set args" "a < length h" "h ! a = Plain"
  show ?thesis
    unfolding add_def delete_def normalise_not_iterable [OF a] by simp
qed

text \<open>
  The amended claim at \<open>add("a", {}, "b")\<close> and \<open>delete("a", {}, "b")\<close>.
\<close>

theorem not_iterable_throws_witness:
  "Ref 0 \<in> set [Str ''a'', Ref 0, Str ''b''] \<and> (0::nat) < length [Plain] \<and> [Plain] ! 0 = Plain \<and>
   add [Plain] [Str ''a'', Ref 0, Str ''b''] okl_example =
     (Threw (TypeError ''Object is not iterable''), okl_example) \<and>
   delete [Plain] [Str ''a'', Ref 0, Str ''b''] okl_example =
     (Threw (TypeError ''Object is not iterable''), okl_example)"
  using not_iterable_throws [of 0 "[Str ''a'', Ref 0, Str ''b'']" "[Plain]" okl_example]
  by simp

section \<open>Normalisation of the arguments of \<open>add\<close>\<close>

lemma key_nameD:
  "key_name k \<Longrightarrow> k \<noteq> []"
  "key_name k \<Longrightarrow> c \<in> set k \<Longrightarrow> \<not> js_space c"
  by (simp_all add: key_name_def list_all_iff)

lemma key_name_hd_last:
  "key_name k \<Longrightarrow> \<not> js_space (hd k)" "key_name k \<Longrightarrow> \<not> js_space (last k)"
  by (simp_all add: key_nameD)

lemma dropWhile_id: "xs \<noteq> [] \<Longrightarrow> \<not> P (hd xs) \<Longrightarrow> dropWhile P (xs @ ys) = xs @ ys"
  by (cases xs) simp_all

lemma takeWhile_nil: "xs \<noteq> [] \<Longrightarrow> \<not> P (hd xs) \<Longrightarrow> takeWhile P (xs @ ys) = []"
  by (cases xs) simp_all

lemma trim_padded:
  assumes "list_all js_space ws1" "list_all js_space ws3"
    and "s \<noteq> []" "\<not> js_space (hd s)" "\<not> js_space (last s)"
  shows "trim (ws1 @ s @ ws3) = s"
proof -
  have 1: "dropWhile js_space (ws1 @ s @ ws3) = s @ ws3"
    using assms(1,3,4) by (simp add: dropWhile_append2 list_all_iff dropWhile_id)
  have "dropWhile js_space (rev ws3 @ rev s) = dropWhile js_space (rev s)"
    by (rule dropWhile_append2) (use assms(2) in \<open>simp add: list_all_iff\<close>)
  also have "\<dots> = rev s"
    using assms(3,5) dropWhile_id [of "rev s" js_space "[]"] by (simp add: hd_rev)
  finally have 2: "dropWhile js_space (rev ws3 @ rev s) = rev s" .
  show ?thesis unfolding trim_def 1 by (simp add: 2)
qed

lemma split_ws_key: "key_name k \<Longrightarrow> split_ws k = [k]"
proof -
  assume k: "key_name k"
  then have "dropWhile (\<lambda>c. \<not> js_space c) k = []" by (simp add: key_nameD)
  then show ?thesis by (subst split_ws.simps) simp
qed

lemma split_ws_two:
  assumes a: "key_name a" and b: "key_name b"
    and ws: "ws \<noteq> []" "list_all js_space ws"
  shows "split_ws (a @ ws @ b) = [a, b]"
proof -
  from ws obtain c cs where c: "ws = c # cs" "js_space c" by (cases ws) simp_all
  have "dropWhile (\<lambda>c. \<not> js_space c) (a @ ws @ b) = dropWhile (\<lambda>c. \<not> js_space c) (ws @ b)"
    by (rule dropWhile_append2) (simp add: key_nameD(2) [OF a])
  then have d: "dropWhile (\<lambda>c. \<not> js_space c) (a @ ws @ b) = ws @ b"
    by (simp add: c)
  have "takeWhile (\<lambda>c. \<not> js_space c) (a @ ws @ b) = a @ takeWhile (\<lambda>c. \<not> js_space c) (ws @ b)"
    by (rule takeWhile_append2) (simp add: key_nameD(2) [OF a])
  then have t: "takeWhile (\<lambda>c. \<not> js_space c) (a @ ws @ b) = a"
    by (simp add: c)
  have "dropWhile js_space (ws @ b) = dropWhile js_space b"
    by (rule dropWhile_append2) (use ws(2) in \<open>simp add: list_all_iff\<close>)
  also have "\<dots> = b"
    using dropWhile_id [where P = js_space and xs = b and ys = "[]"]
      key_nameD(1) [OF b] key_name_hd_last(1) [OF b] by simp
  finally have d2: "dropWhile js_space (ws @ b) = b" .
  show ?thesis
    by (subst split_ws.simps) (simp add: d t d2 ws(1) split_ws_key [OF b])
qed

lemma key_name_sep:
  assumes a: "key_name a" and b: "key_name b"
  shows "a @ ws @ b \<noteq> []" "\<not> js_space (hd (a @ ws @ b))" "\<not> js_space (last (a @ ws @ b))"
  using key_nameD(1) [OF a] key_nameD(1) [OF b] key_name_hd_last(1) [OF a] key_name_hd_last(2) [OF b]
  by simp_all

lemma split_trim_two:
  assumes a: "key_name a" and b: "key_name b"
    and ws: "list_all js_space ws1" "ws2 \<noteq> []" "list_all js_space ws2" "list_all js_space ws3"
  shows "split_ws (trim (ws1 @ a @ ws2 @ b @ ws3)) = [a, b]"
proof -
  have "trim (ws1 @ (a @ ws2 @ b) @ ws3) = a @ ws2 @ b"
    by (rule trim_padded [OF ws(1) ws(4) key_name_sep [OF a b]])
  then show ?thesis by (simp add: split_ws_two [OF a b ws(2,3)])
qed

lemma split_trim_key: "key_name k \<Longrightarrow> split_ws (trim k) = [k]"
  using trim_padded [of "[]" "[]" k]
  by (simp add: key_nameD(1) key_name_hd_last split_ws_key)

lemma add_string:
  "s \<noteq> [] \<Longrightarrow> add h [Str s] w = (Returned, fold add_key (split_ws (trim s)) w)"
  unfolding add_def normalise_args by (simp add: keys_loop_Str)

lemma add_two_strings:
  "s \<noteq> [] \<Longrightarrow> t \<noteq> [] \<Longrightarrow>
     add h [Str s, Str t] w =
       (Returned, fold add_key (split_ws (trim s) @ split_ws (trim t)) w)"
  unfolding add_def normalise_args by (simp add: keys_loop_Str)

lemma add_array:
  assumes "p < length h" "h ! p = Iterable [Str s, Str t]" "s \<noteq> []" "t \<noteq> []"
  shows "add h [Ref p] w =
       (Returned, fold add_key (split_ws (trim s) @ split_ws (trim t)) w)"
proof -
  let ?H = "h @ [Iterable [Ref p]]"
  have it: "iterate ?H p = Some [Str s, Str t]"
    using assms(1,2) by (simp add: iterate_append) (simp add: iterate_def)
  have "keys_loop ?H [Ref p] {length h} =
          Inr (split_ws (trim s) @ split_ws (trim t), {p, length h})"
    using assms(1,3,4) by (simp add: keys_loop_Ref_new it)
  then show ?thesis unfolding add_def normalise_args by simp
qed

lemma add_empty_string: "add h [Str ''''] w = (Returned, w)"
  unfolding add_def normalise_args by simp

text \<open>
  Claim C7.  The claim has \<open>add(42)\<close> observe the key \<open>"42"\<close>.  The coercion
  \<open>String(input)\<close> is in the outer \<open>switch\<close> of \<open>normaliseKeys\<close>, which sees the array of
  the arguments of \<open>add\<close>; the elements go through the inner \<open>switch\<close>, which has no
  case for a number.  So \<open>add(42)\<close> returns and leaves the instance as it was, while
  \<open>normaliseKeys(42)\<close>, called directly, gives \<open>["42"]\<close>.
\<close>

theorem add_number_dropped:
  "add [] [Num 42] okl_example = (Returned, okl_example) \<and>
   ''42'' \<notin> set (keys okl_example) \<and>
   normaliseKeys [] (Num 42) {} = Inr ([''42''], {})"
  by code_simp

text \<open>
  Claim C6.  The claim has empty and blank strings dropped.  The loop drops a value that is
  falsy, which an empty string is and a string of white space is not; at a blank string it
  goes on, trims it to the empty string and splits that into one empty piece.  So
  \<open>add(" ")\<close> puts the key \<open>""\<close> into the set and observes it.  The rest of the claim
  holds, as \<open>add_normalisation\<close> below says.
\<close>

theorem add_blank_string:
  "keys (snd (add [] [Str '' ''] okl_example)) = [''x'', ''y'', ''''] \<and>
   observers (snd (add [] [Str '' ''] okl_example)) = [(0, ''x''), (1, ''y''), (2, '''')]"
proof -
  have 1: "trim '' '' = []"
    by (simp add: trim_def js_space_def)
  have 2: "split_ws [] = [[]]"
    by (subst split_ws.simps) simp
  show ?thesis
    by (simp add: add_string 1 2 add_key_def okl_example_def config_observe_def handler_def
          md_add_def Let_def)
qed

text \<open>
  Let \<open>a\<close> and \<open>b\<close> be key names: not empty and free of white
  space.  Then \<open>add("a b")\<close>, \<open>add(["a", "b"])\<close>, \<open>add("a", "b")\<close> and
  \<open>add(" a  b ")\<close> all return and leave the instance in the same state, the one that adding
  \<open>a\<close> and then \<open>b\<close> gives; so does any string that pads and separates \<open>a\<close> and
  \<open>b\<close> with white space.  Empty strings among the arguments are dropped.
\<close>

theorem add_normalisation:
  "key_name a \<Longrightarrow> key_name b \<Longrightarrow> p < length h \<Longrightarrow> h ! p = Iterable [Str a, Str b] \<Longrightarrow>
     add h [Str (a @ '' '' @ b)] w = (Returned, fold add_key [a, b] w) \<and>
     add h [Ref p] w = (Returned, fold add_key [a, b] w) \<and>
     add h [Str a, Str b] w = (Returned, fold add_key [a, b] w) \<and>
     add h [Str ('' '' @ a @ ''  '' @ b @ '' '')] w = (Returned, fold add_key [a, b] w) \<and>
     (list_all js_space ws1 \<and> ws2 \<noteq> [] \<and> list_all js_space ws2 \<and> list_all js_space ws3 \<longrightarrow>
        add h [Str (ws1 @ a @ ws2 @ b @ ws3)] w = (Returned, fold add_key [a, b] w)) \<and>
     add h [Str '''', Str a, Str '''', Str b] w = (Returned, fold add_key [a, b] w) \<and>
     add h [Str ''''] w = (Returned, w)"
proof -
  assume a: "key_name a" and b: "key_name b"
    and p: "p < length h" "h ! p = Iterable [Str a, Str b]"
  note ne = key_nameD(1) [OF a] key_nameD(1) [OF b]
  have gen: "add h [Str (ws1 @ a @ ws2 @ b @ ws3)] w = (Returned, fold add_key [a, b] w)"
    if "list_all js_space ws1" "ws2 \<noteq> []" "list_all js_space ws2" "list_all js_space ws3"
    for ws1 ws2 ws3
    using ne by (subst add_string) (simp_all add: split_trim_two [OF a b that])
  have sp: "list_all js_space '' ''" "list_all js_space ''  ''" "list_all js_space ''''"
    by (simp_all add: js_space_def)
  have 1: "add h [Str (a @ '' '' @ b)] w = (Returned, fold add_key [a, b] w)"
    using gen [OF sp(3) _ sp(1) sp(3)] by simp
  have 2: "add h [Ref p] w = (Returned, fold add_key [a, b] w)"
    by (simp add: add_array [OF p ne] split_trim_key [OF a] split_trim_key [OF b])
  have 3: "add h [Str a, Str b] w = (Returned, fold add_key [a, b] w)"
    by (simp add: add_two_strings [OF ne] split_trim_key [OF a] split_trim_key [OF b])
  have 4: "add h [Str ('' '' @ a @ ''  '' @ b @ '' '')] w = (Returned, fold add_key [a, b] w)"
    using gen [OF sp(1) _ sp(2) sp(1)] by simp
  have 5: "add h [Str '''', Str a, Str '''', Str b] w = (Returned, fold add_key [a, b] w)"
    using ne unfolding add_def normalise_args
    by (simp add: keys_loop_Str split_trim_key [OF a] split_trim_key [OF b])
  have 6: "list_all js_space ws1 \<and> ws2 \<noteq> [] \<and> list_all js_space ws2 \<and> list_all js_space ws3 \<longrightarrow>
        add h [Str (ws1 @ a @ ws2 @ b @ ws3)] w = (Returned, fold add_key [a, b] w)"
    using gen [of ws1 ws2 ws3] by (intro impI) (elim conjE)
  show ?thesis by (intro conjI 1 2 3 4 5 6 add_empty_string)
qed

text \<open>
  This at the keys \<open>x\<close> and \<open>y\<close>, on the instance
  \<open>new ObservedKeyList(f)\<close>: each of the four calls gives the instance that
  \<open>new ObservedKeyList(f, "x y")\<close> gives.
\<close>

theorem add_normalisation_witness:
  "key_name ''x'' \<and> key_name ''y'' \<and>
   (0::nat) < length [Iterable [Str ''x'', Str ''y'']] \<and>
   [Iterable [Str ''x'', Str ''y'']] ! 0 = Iterable [Str ''x'', Str ''y''] \<and>
   construct (Fn 0 ''f'') [] [] = Inr okl_fresh \<and>
   add [Iterable [Str ''x'', Str ''y'']] [Str ''x y''] okl_fresh = (Returned, okl_example) \<and>
   add [Iterable [Str ''x'', Str ''y'']] [Ref 0] okl_fresh = (Returned, okl_example) \<and>
   add [Iterable [Str ''x'', Str ''y'']] [Str ''x'', Str ''y''] okl_fresh = (Returned, okl_example) \<and>
   add [Iterable [Str ''x'', Str ''y'']] [Str '' x  y ''] okl_fresh = (Returned, okl_example) \<and>
   add [Iterable [Str ''x'', Str ''y'']] [Str ''''] okl_fresh = (Returned, okl_fresh)"
proof -
  have k: "key_name ''x''" "key_name ''y''"
    by (simp_all add: key_name_def js_space_def)
  have h: "(0::nat) < length [Iterable [Str ''x'', Str ''y'']]"
    "[Iterable [Str ''x'', Str ''y'']] ! 0 = Iterable [Str ''x'', Str ''y'']"
    by simp_all
  have c: "construct (Fn 0 ''f'') [] [] = Inr okl_fresh"
    by (simp add: construct_def okl_fresh_def md_new_def)
  have f: "fold add_key [''x'', ''y''] okl_fresh = okl_example"
    by (simp add: add_key_def okl_fresh_def okl_example_def config_observe_def handler_def
          md_add_def Let_def)
  note a = add_normalisation [OF k h, of okl_fresh, unfolded f]
  from a have 1: "add [Iterable [Str ''x'', Str ''y'']] [Str ''x y''] okl_fresh = (Returned, okl_example)"
    by simp
  from a have 2: "add [Iterable [Str ''x'', Str ''y'']] [Ref 0] okl_fresh = (Returned, okl_example)"
    by simp
  from a have 3: "add [Iterable [Str ''x'', Str ''y'']] [Str ''x'', Str ''y''] okl_fresh = (Returned, okl_example)"
    by simp
  from a have 4: "add [Iterable [Str ''x'', Str ''y'']] [Str '' x  y ''] okl_fresh = (Returned, okl_example)"
    by simp
  from a have 5: "add [Iterable [Str ''x'', Str ''y'']] [Str ''''] okl_fresh = (Returned, okl_fresh)"
    by simp
  show ?thesis by (intro conjI k h c 1 2 3 4 5)
qed

section \<open>The values of \<open>renderState\<close>\<close>

lemma handleRender_busy:
  "renderState u = ''rendering'' \<or> renderState u = ''pending'' \<Longrightarrow> handleRender u = u"
  by (auto simp: handleRender_def)

lemma handleRender_visible:
  "visible u \<Longrightarrow> renderState u \<noteq> ''rendering'' \<Longrightarrow> renderState u \<noteq> ''pending'' \<Longrightarrow>
     handleRender u =
       (emit ''did-render-started'' (assign_renderState ''rendering'' u))
         \<lparr>renders := Suc (renders u), awaiting := Suc (awaiting u)\<rparr>"
  by (simp add: handleRender_def Let_def eq_commute [of "''rendering''"] eq_commute [of "''pending''"]
        emit_def assign_renderState_def)

lemma handleRender_hidden:
  "\<not> visible u \<Longrightarrow> renderState u \<noteq> ''rendering'' \<Longrightarrow> renderState u \<noteq> ''pending'' \<Longrightarrow>
     handleRender u = emit ''did-queue-render'' (assign_renderState ''pending'' u)"
  by (simp add: handleRender_def eq_commute [of "''rendering''"] eq_commute [of "''pending''"])

lemma renderState_emit [simp]: "renderState (emit e u) = renderState u"
  by (simp add: emit_def)

lemma renderState_assign [simp]: "renderState (assign_renderState s u) = s"
  by (simp add: assign_renderState_def)

lemma renderState_restoreOffsets [simp]: "renderState (restoreOffsets u) = renderState u"
  by (simp add: restoreOffsets_def Let_def split: option.splits)

lemma renderState_handleRender:
  "renderState (handleRender u) =
     (if renderState u = ''rendering'' \<or> renderState u = ''pending'' then renderState u
      else if visible u then ''rendering'' else ''pending'')"
  by (simp add: handleRender_busy handleRender_visible handleRender_hidden)

lemma renderState_step:
  "renderState (view_step ev u) \<in> {renderState u, ''rendering'', ''pending'', ''finished''}"
proof (cases ev)
  case HandleRender
  then show ?thesis by (simp add: renderState_handleRender)
next
  case RenderResolved
  then show ?thesis by (simp add: render_resolved_def)
next
  case RenderRejected
  then show ?thesis by (simp add: render_rejected_def)
next
  case (ActivePaneItem b)
  then show ?thesis by (simp add: activePaneItem_def renderState_handleRender)
next
  case (SetVisible b)
  then show ?thesis by simp
qed

lemma view_run_snoc: "view_run (evs @ [ev]) u = view_step ev (view_run evs u)"
  by (simp add: view_run_def)

lemma view_run_append: "view_run (xs @ ys) u = view_run ys (view_run xs u)"
  by (simp add: view_run_def)

lemma view_run_Cons: "view_run (ev # evs) u = view_run evs (view_step ev u)"
  by (simp add: view_run_def)

lemma view_run_Nil: "view_run [] u = u"
  by (simp add: view_run_def)

lemma renderState_run:
  "renderState (view_run evs u) \<in> {renderState u, ''rendering'', ''pending'', ''finished''}"
proof (induction evs rule: rev_induct)
  case Nil
  then show ?case by (simp add: view_run_Nil)
next
  case (snoc ev evs)
  have "y \<in> {a, r, p, f}" if "y \<in> {x, r, p, f}" "x \<in> {a, r, p, f}"
    for y x a r p f :: string
    using that by auto
  from this [OF renderState_step [of ev "view_run evs u"] snoc] show ?case
    unfolding view_run_snoc .
qed

lemma renderState_after_request:
  "renderState (view_step HandleRender u) \<in> {''rendering'', ''pending''}"
  by (simp add: renderState_handleRender)

text \<open>
  Claim C4, as stated, fails at the start: the prototype gives \<open>renderState\<close> the value
  \<open>""\<close>, as its comment says (\<open>@default ""\<close>), and nothing assigns it before the first
  render request.  The new view's state is none of the four strings.
\<close>

theorem renderState_initial_counterexample:
  "renderState (new_view None True) = '''' \<and>
   renderState (new_view None True) \<noteq> ''none'' \<and>
   renderState (view_run [] (new_view None True)) \<notin> {''none'', ''rendering'', ''pending'', ''finished''}"
  by (simp add: new_view_def view_run_def)

text \<open>
  Claim C4, amended.  The \<open>renderState\<close> of a new view is the empty string.  After any
  sequence of render requests, ends of renders and changes of the active pane item and of
  the visibility, it is the empty string or one of \<open>"none"\<close>, \<open>"rendering"\<close>,
  \<open>"pending"\<close>, \<open>"finished"\<close>; once one render request has been made it is one of the
  four.
\<close>

theorem renderState_values:
  "renderState (new_view offs vis) = '''' \<and>
   renderState (view_run evs (new_view offs vis))
     \<in> {'''', ''none'', ''rendering'', ''pending'', ''finished''} \<and>
   (HandleRender \<in> set evs \<longrightarrow>
      renderState (view_run evs (new_view offs vis))
        \<in> {''none'', ''rendering'', ''pending'', ''finished''})"
proof -
  have 1: "renderState (new_view offs vis) = ''''"
    by (simp add: new_view_def)
  have 2: "renderState (view_run evs (new_view offs vis))
      \<in> {'''', ''none'', ''rendering'', ''pending'', ''finished''}"
    using renderState_run [of evs "new_view offs vis"] unfolding 1 by blast
  have 3: "renderState (view_run evs (new_view offs vis))
        \<in> {''none'', ''rendering'', ''pending'', ''finished''}"
    if "HandleRender \<in> set evs"
  proof -
    from that obtain xs ys where evs: "evs = xs @ HandleRender # ys"
      by (auto dest: split_list)
    let ?u = "view_step HandleRender (view_run xs (new_view offs vis))"
    have "view_run evs (new_view offs vis) = view_run ys ?u"
      unfolding evs by (simp add: view_run_append view_run_Cons)
    with renderState_run [of ys ?u] renderState_after_request [of "view_run xs (new_view offs vis)"]
    show ?thesis by auto
  qed
  from 1 2 3 show ?thesis by blast
qed

text \<open>
  The amended claim on a view that is hidden when the first request comes and becomes the
  active item afterwards.
\<close>

theorem renderState_values_witness:
  "renderState (new_view None False) = '''' \<and>
   HandleRender \<in> set [HandleRender, SetVisible True, ActivePaneItem True, RenderResolved] \<and>
   renderState (view_run [HandleRender] (new_view None False)) = ''pending'' \<and>
   renderState (view_run [HandleRender, SetVisible True, ActivePaneItem True] (new_view None False))
     = ''rendering'' \<and>
   renderState (view_run [HandleRender, SetVisible True, ActivePaneItem True, RenderResolved]
     (new_view None False)) = ''finished'' \<and>
   renderState (view_run [HandleRender, SetVisible True, ActivePaneItem True, RenderResolved]
     (new_view None False)) \<in> {''none'', ''rendering'', ''pending'', ''finished''}"
proof -
  have m: "HandleRender \<in> set [HandleRender, SetVisible True, ActivePaneItem True, RenderResolved]"
    by simp
  have e: "renderState (view_run [HandleRender] (new_view None False)) = ''pending''"
    "renderState (view_run [HandleRender, SetVisible True, ActivePaneItem True] (new_view None False))
       = ''rendering''"
    "renderState (view_run [HandleRender, SetVisible True, ActivePaneItem True, RenderResolved]
       (new_view None False)) = ''finished''"
    by (simp_all add: view_run_def new_view_def handleRender_def activePaneItem_def
          render_resolved_def emit_def assign_renderState_def restoreOffsets_def Let_def)
  from renderState_values [of None False
      "[HandleRender, SetVisible True, ActivePaneItem True, RenderResolved]"] m
  have "renderState (new_view None False) = ''''"
    "renderState (view_run [HandleRender, SetVisible True, ActivePaneItem True, RenderResolved]
     (new_view None False)) \<in> {''none'', ''rendering'', ''pending'', ''finished''}"
    by blast+
  with m e show ?thesis by (intro conjI)
qed

section \<open>Rendering when the view becomes visible\<close>






section \<open>A render that fails\<close>







end
